theory Spec2Isabelle
  imports
    Main
    "HOL-Library.Multiset"
    "HOL-Library.Char_ord"
    "HOL-Library.List_Lexorder"
begin

section \<open>csvsorter: the ordering tree, the reader loop and the writer\<close>

text \<open>
  The development follows \<^verbatim>\<open>csvsorter.go\<close>. Go strings are byte sequences and
  \<^verbatim>\<open><\<close> on them is the lexicographic order on bytes; \<^typ>\<open>string\<close> is a list of
  8-bit characters, so a Go string is a \<^typ>\<open>string\<close> and a \<^verbatim>\<open>Record\<close> is a list
  of them. A \<^verbatim>\<open>*Node\<close> is either \<^verbatim>\<open>nil\<close> or points to a node that the
  parent owns alone (nodes are only created by insertion, never shared), so the in-place
  mutation of the source is a function that returns the updated node.
  \<^verbatim>\<open>log.Fatalf\<close> and a runtime panic both end the process: they are the \<open>Inl\<close>
  results of the model. \<^verbatim>\<open>sortIndex\<close> is a Go \<^verbatim>\<open>uint\<close>; it is only compared
  with a length and used as an index, so it is a natural number here (every \<^verbatim>\<open>uint\<close>
  value is one, whatever the platform's width).
\<close>

subsection \<open>Data model\<close>

type_synonym Record = "string list"

datatype Node = nil | Node (val: Record) (left: Node) (right: Node)

record Tree =
  sortIndex :: nat
  root :: Node

datatype error =
    IndexOutOfRange            \<comment> \<open>\<^verbatim>\<open>log.Fatalf("index out of range\n")\<close>\<close>
  | InvalidRecordLength nat    \<comment> \<open>\<^verbatim>\<open>log.Fatalf("invalid record length: %d\n", len(value))\<close>\<close>
  | RuntimePanic               \<comment> \<open>index out of range or nil dereference at run time\<close>
  | OpenError                  \<comment> \<open>\<^verbatim>\<open>log.Fatal(err)\<close> after \<^verbatim>\<open>os.Open\<close>\<close>

type_synonym Comparator = "Record \<Rightarrow> Record \<Rightarrow> error + bool"

subsection \<open>String comparison\<close>

text \<open>Go's \<^verbatim>\<open>a < b\<close> on strings: byte by byte, a proper prefix is smaller.\<close>

fun str_less :: "string \<Rightarrow> string \<Rightarrow> bool" where
  "str_less [] [] = False"
| "str_less [] (d # b) = True"
| "str_less (c # a) [] = False"
| "str_less (c # a) (d # b) =
     (if (of_char c :: nat) < of_char d then True
      else if (of_char d :: nat) < of_char c then False
      else str_less a b)"

subsection \<open>The tree\<close>

definition NewTree :: "nat \<Rightarrow> Tree" where
  "NewTree si = \<lparr>sortIndex = si, root = nil\<rparr>"

text \<open>
  The closure passed by \<^verbatim>\<open>Tree.Insert\<close>:
  \<^verbatim>\<open>left[t.sortIndex] < right[t.sortIndex]\<close>. Indexing a slice out of range panics.
\<close>

definition sortIndex_less :: "nat \<Rightarrow> Comparator" where
  "sortIndex_less si l r =
     (if si < length l \<and> si < length r then Inr (str_less (l ! si) (r ! si))
      else Inl RuntimePanic)"

text \<open>
  \<^verbatim>\<open>func (n *Node) insert(value Record, cmp Comparator)\<close>. The receiver is
  dereferenced first (\<^verbatim>\<open>n.val\<close>), which panics on \<^verbatim>\<open>nil\<close>.
\<close>

fun Node_insert :: "Node \<Rightarrow> Record \<Rightarrow> Comparator \<Rightarrow> error + Node" where
  "Node_insert nil x cmp = Inl RuntimePanic"
| "Node_insert (Node v l r) x cmp =
     (case cmp x v of
        Inl e \<Rightarrow> Inl e
      | Inr True \<Rightarrow>
          (if l = nil then Inr (Node v (Node x nil nil) r)
           else (case Node_insert l x cmp of
                   Inl e \<Rightarrow> Inl e
                 | Inr l' \<Rightarrow> Inr (Node v l' r)))
      | Inr False \<Rightarrow>
          (if r = nil then Inr (Node v l (Node x nil nil))
           else (case Node_insert r x cmp of
                   Inl e \<Rightarrow> Inl e
                 | Inr r' \<Rightarrow> Inr (Node v l r'))))"

text \<open>\<^verbatim>\<open>func (t *Tree) Insert(value Record)\<close>.\<close>

definition Insert :: "Tree \<Rightarrow> Record \<Rightarrow> error + Tree" where
  "Insert t x =
     (case root t of
        nil \<Rightarrow> Inr (t\<lparr>root := Node x nil nil\<rparr>)
      | Node rv l r \<Rightarrow>
          (if sortIndex t \<ge> length x then Inl IndexOutOfRange
           else if length x \<noteq> length rv then Inl (InvalidRecordLength (length x))
           else (case Node_insert (root t) x (sortIndex_less (sortIndex t)) of
                   Inl e \<Rightarrow> Inl e
                 | Inr n \<Rightarrow> Inr (t\<lparr>root := n\<rparr>))))"

text \<open>
  \<^verbatim>\<open>traverseInOrder(node, reverse, visit)\<close>. The visitor is a procedure with an
  effect; here it transforms a state \<open>'s\<close>, threaded through the walk in call order.
\<close>

fun traverseInOrder :: "Node \<Rightarrow> bool \<Rightarrow> (Node \<Rightarrow> 's \<Rightarrow> 's) \<Rightarrow> 's \<Rightarrow> 's" where
  "traverseInOrder nil reverse visit s = s"
| "traverseInOrder (Node v l r) reverse visit s =
     (if reverse
      then traverseInOrder l reverse visit
             (visit (Node v l r) (traverseInOrder r reverse visit s))
      else traverseInOrder r reverse visit
             (visit (Node v l r) (traverseInOrder l reverse visit s)))"

definition Traverse :: "Tree \<Rightarrow> bool \<Rightarrow> (Node \<Rightarrow> 's \<Rightarrow> 's) \<Rightarrow> 's \<Rightarrow> 's" where
  "Traverse t reverse visit s =
     (if root t \<noteq> nil then traverseInOrder (root t) reverse visit s else s)"

text \<open>The sequence of nodes a traversal visits: the visitor that appends its node to a log.\<close>

definition visited :: "Tree \<Rightarrow> bool \<Rightarrow> Node list" where
  "visited t reverse = Traverse t reverse (\<lambda>n log. log @ [n]) []"

definition visited_records :: "Tree \<Rightarrow> bool \<Rightarrow> Record list" where
  "visited_records t reverse = Traverse t reverse (\<lambda>n log. log @ [val n]) []"

text \<open>
  \<^verbatim>\<open>BuildTreeFromStream\<close>: the records received from the channel, in arrival order,
  are inserted one by one; a fatal insertion ends the process, so no later record is
  looked at.
\<close>

fun BuildTreeFromStream :: "Tree \<Rightarrow> Record list \<Rightarrow> error + Tree" where
  "BuildTreeFromStream tree [] = Inr tree"
| "BuildTreeFromStream tree (rcd # stream) =
     (case Insert tree rcd of
        Inl e \<Rightarrow> Inl e
      | Inr tree' \<Rightarrow> BuildTreeFromStream tree' stream)"

subsection \<open>Writing\<close>

text \<open>
  \<^verbatim>\<open>csv.Writer\<close> belongs to the Go library, so the writer is a parameter: a state
  \<open>'w\<close>, \<open>Write\<close>, which returns the new state and whether the call reported an error,
  and \<open>Flush\<close>. \<^verbatim>\<open>WriteTree\<close> calls \<^verbatim>\<open>writer.Write(node.val)\<close> in the visitor and
  drops its result, then calls \<^verbatim>\<open>writer.Flush()\<close>; it has no fatal exit of its own.
\<close>

record 'w csv_Writer =
  Write :: "Record \<Rightarrow> 'w \<Rightarrow> bool \<times> 'w"
  Flush :: "'w \<Rightarrow> 'w"

definition WriteTree :: "Tree \<Rightarrow> 'w csv_Writer \<Rightarrow> bool \<Rightarrow> 'w \<Rightarrow> error + 'w" where
  "WriteTree tree writer reverse w =
     Inr (Flush writer (Traverse tree reverse (\<lambda>node w'. snd (Write writer (val node) w')) w))"

text \<open>
  A writer to test with, over a destination with room for a given number of records. It
  keeps the records it was asked to write, those that reached the destination, and the
  number of flushes. A write without room left reports an error and writes nothing, and
  so does every write after it, as with the buffered writer of the library, which
  accepts no data after a failure.
\<close>

record probe =
  calls :: "Record list"
  written :: "Record list"
  room :: nat
  flushes :: nat

definition probe_Writer :: "probe csv_Writer" where
  "probe_Writer =
     \<lparr>Write = (\<lambda>r w. if room w = 0 then (True, w\<lparr>calls := calls w @ [r]\<rparr>)
                      else (False, w\<lparr>calls := calls w @ [r], written := written w @ [r],
                                     room := room w - 1\<rparr>)),
      Flush = (\<lambda>w. w\<lparr>flushes := Suc (flushes w)\<rparr>)\<rparr>"

subsection \<open>Reading\<close>










subsection \<open>Notions of the specification\<close>

text \<open>
  The nodes of a subtree from left to right, their records, and the number of nodes.
\<close>

fun inorder_nodes :: "Node \<Rightarrow> Node list" where
  "inorder_nodes nil = []"
| "inorder_nodes (Node v l r) = inorder_nodes l @ Node v l r # inorder_nodes r"

fun records :: "Node \<Rightarrow> Record list" where
  "records nil = []"
| "records (Node v l r) = records l @ v # records r"

fun count_nodes :: "Node \<Rightarrow> nat" where
  "count_nodes nil = 0"
| "count_nodes (Node v l r) = Suc (count_nodes l + count_nodes r)"

text \<open>
  The search-tree invariant with respect to a comparator: everything in the left subtree
  compares less than the node, nothing in the right subtree does, and both comparisons
  are defined.
\<close>

fun bst :: "Comparator \<Rightarrow> Node \<Rightarrow> bool" where
  "bst cmp nil = True"
| "bst cmp (Node v l r) =
     ((\<forall>x \<in> set (records l). cmp x v = Inr True) \<and>
      (\<forall>x \<in> set (records r). cmp x v = Inr False) \<and>
      bst cmp l \<and> bst cmp r)"

text \<open>
  Insertion in the words of the specification: descend from the root, left when the
  candidate is strictly less on the sort field and right otherwise, down to the first
  missing child; attach the record there as a new leaf and change nothing else.
\<close>

datatype direction = GoLeft | GoRight

fun descent :: "nat \<Rightarrow> Node \<Rightarrow> Record \<Rightarrow> direction list" where
  "descent si nil x = []"
| "descent si (Node v l r) x =
     (if str_less (x ! si) (v ! si) then GoLeft # descent si l x
      else GoRight # descent si r x)"

fun attach :: "Node \<Rightarrow> direction list \<Rightarrow> Record \<Rightarrow> Node" where
  "attach nil [] x = Node x nil nil"
| "attach (Node v l r) (GoLeft # p) x = Node v (attach l p x) r"
| "attach (Node v l r) (GoRight # p) x = Node v l (attach r p x)"
| "attach n p x = n"




text \<open>The sort key of a record.\<close>

definition sort_field :: "nat \<Rightarrow> Record \<Rightarrow> string" where
  "sort_field si r = r ! si"

section \<open>Properties\<close>

subsection \<open>The comparison is the lexicographic order\<close>

text \<open>
  \<^const>\<open>str_less\<close> is the order of the library on byte lists, a linear order.
\<close>

lemma str_less_iff: "str_less a b \<longleftrightarrow> a < b"
  by (induction a b rule: str_less.induct) (auto simp: less_char_def)

subsection \<open>Traversal\<close>

text \<open>
  A traversal applies the visitor to the nodes in order, one after the other.
\<close>

lemma traverseInOrder_fold:
  "traverseInOrder n reverse visit s =
     fold visit (if reverse then rev (inorder_nodes n) else inorder_nodes n) s"
  by (induction n arbitrary: s) auto

lemma fold_log: "fold (\<lambda>n log. log @ [f n]) xs acc = acc @ map f xs"
  by (induction xs arbitrary: acc) auto

lemma map_val_inorder_nodes: "map val (inorder_nodes n) = records n"
  by (induction n) auto

lemma Traverse_fold:
  "Traverse t reverse visit s =
     fold visit (if reverse then rev (inorder_nodes (root t)) else inorder_nodes (root t)) s"
  unfolding Traverse_def traverseInOrder_fold by (cases "root t") simp_all

lemma visited_eq:
  "visited t reverse = (if reverse then rev (inorder_nodes (root t)) else inorder_nodes (root t))"
  by (simp add: visited_def Traverse_fold fold_log)

lemma visited_records_eq:
  "visited_records t reverse = (if reverse then rev (records (root t)) else records (root t))"
  by (simp add: visited_records_def Traverse_fold fold_log rev_map [symmetric] map_val_inorder_nodes)

subsection \<open>Insertion below a node\<close>

lemma Node_insert_not_nil: "Node_insert n x cmp = Inr n' \<Longrightarrow> n' \<noteq> nil"
  by (cases n) (auto split: sum.splits bool.splits if_splits)

lemma Node_insert_val: "Node_insert n x cmp = Inr n' \<Longrightarrow> val n' = val n"
  by (cases n) (auto split: sum.splits bool.splits if_splits)

lemma Node_insert_mset:
  "Node_insert n x cmp = Inr n' \<Longrightarrow> mset (records n') = add_mset x (mset (records n))"
  by (induction n arbitrary: n') (auto split: sum.splits bool.splits if_splits)

lemma Node_insert_set:
  "Node_insert n x cmp = Inr n' \<Longrightarrow> set (records n') = insert x (set (records n))"
  using Node_insert_mset [THEN arg_cong, of n x cmp n' set_mset] by simp

lemma Node_insert_count:
  "Node_insert n x cmp = Inr n' \<Longrightarrow> count_nodes n' = Suc (count_nodes n)"
  by (induction n arbitrary: n') (auto split: sum.splits bool.splits if_splits)

lemma Node_insert_bst:
  "Node_insert n x cmp = Inr n' \<Longrightarrow> bst cmp n \<Longrightarrow> bst cmp n'"
proof (induction n arbitrary: n')
  case nil
  then show ?case by simp
next
  case (Node v l r)
  show ?case
  proof (cases "cmp x v")
    case (Inl e)
    with Node.prems show ?thesis by simp
  next
    case (Inr b)
    show ?thesis
    proof (cases b)
      case True
      show ?thesis
      proof (cases "l = nil")
        case True
        with Node.prems Inr \<open>b\<close> show ?thesis by auto
      next
        case False
        with Node.prems Inr \<open>b\<close> obtain l' where l': "Node_insert l x cmp = Inr l'" "n' = Node v l' r"
          by (auto split: sum.splits)
        from Node.IH(1) [OF l'(1)] Node.prems(2) have "bst cmp l'" by simp
        moreover have "set (records l') = insert x (set (records l))"
          by (rule Node_insert_set [OF l'(1)])
        ultimately show ?thesis using Node.prems(2) Inr \<open>b\<close> l'(2) by simp
      qed
    next
      case False
      show ?thesis
      proof (cases "r = nil")
        case True
        with Node.prems Inr \<open>\<not> b\<close> show ?thesis by auto
      next
        case rn: False
        with Node.prems Inr \<open>\<not> b\<close> obtain r' where r': "Node_insert r x cmp = Inr r'" "n' = Node v l r'"
          by (auto split: sum.splits)
        from Node.IH(2) [OF r'(1)] Node.prems(2) have "bst cmp r'" by simp
        moreover have "set (records r') = insert x (set (records r))"
          by (rule Node_insert_set [OF r'(1)])
        ultimately show ?thesis using Node.prems(2) Inr \<open>\<not> b\<close> r'(2) by simp
      qed
    qed
  qed
qed

lemma Node_insert_defined:
  "n \<noteq> nil \<Longrightarrow> \<forall>y \<in> set (records n). si < length y \<Longrightarrow> si < length x \<Longrightarrow>
   \<exists>n'. Node_insert n x (sortIndex_less si) = Inr n'"
proof (induction n)
  case nil
  then show ?case by simp
next
  case (Node v l r)
  have c: "sortIndex_less si x v = Inr (str_less (x ! si) (v ! si))"
    using Node.prems by (simp add: sortIndex_less_def)
  show ?case
  proof (cases "str_less (x ! si) (v ! si)")
    case True
    show ?thesis
    proof (cases "l = nil")
      case True
      with c \<open>str_less (x ! si) (v ! si)\<close> show ?thesis by simp
    next
      case False
      with Node.IH(1) Node.prems obtain l' where "Node_insert l x (sortIndex_less si) = Inr l'"
        by auto
      with c True False show ?thesis by simp
    qed
  next
    case False
    show ?thesis
    proof (cases "r = nil")
      case True
      with c \<open>\<not> str_less (x ! si) (v ! si)\<close> show ?thesis by simp
    next
      case rn: False
      with Node.IH(2) Node.prems obtain r' where "Node_insert r x (sortIndex_less si) = Inr r'"
        by auto
      with c False rn show ?thesis by simp
    qed
  qed
qed

lemma Node_insert_attach:
  "Node_insert n x (sortIndex_less si) = Inr n' \<Longrightarrow> n' = attach n (descent si n x) x"
proof (induction n arbitrary: n')
  case nil
  then show ?case by simp
next
  case (Node v l r)
  from Node.prems have c: "sortIndex_less si x v = Inr (str_less (x ! si) (v ! si))"
    by (auto simp: sortIndex_less_def split: if_splits)
  show ?case
  proof (cases "str_less (x ! si) (v ! si)")
    case True
    show ?thesis
    proof (cases "l = nil")
      case True
      with c \<open>str_less (x ! si) (v ! si)\<close> Node.prems show ?thesis by simp
    next
      case False
      with Node.prems c True obtain l' where l': "Node_insert l x (sortIndex_less si) = Inr l'" "n' = Node v l' r"
        by (auto split: sum.splits)
      with Node.IH(1) [OF l'(1)] True show ?thesis by simp
    qed
  next
    case False
    show ?thesis
    proof (cases "r = nil")
      case True
      with c \<open>\<not> str_less (x ! si) (v ! si)\<close> Node.prems show ?thesis by simp
    next
      case rn: False
      with Node.prems c False obtain r' where r': "Node_insert r x (sortIndex_less si) = Inr r'" "n' = Node v l r'"
        by (auto split: sum.splits)
      with Node.IH(2) [OF r'(1)] False show ?thesis by simp
    qed
  qed
qed


subsection \<open>Insertion into the tree\<close>

lemma Insert_Inr_cases:
  assumes "Insert t x = Inr t'"
  shows "(root t = nil \<and> t' = t\<lparr>root := Node x nil nil\<rparr>) \<or>
         (root t \<noteq> nil \<and> sortIndex t < length x \<and> length x = length (val (root t)) \<and>
          (\<exists>n'. Node_insert (root t) x (sortIndex_less (sortIndex t)) = Inr n' \<and>
                t' = t\<lparr>root := n'\<rparr>))"
proof (cases "root t")
  case nil
  with assms show ?thesis by (simp add: Insert_def)
next
  case (Node v l r)
  with assms show ?thesis
    by (simp add: Insert_def del: Node_insert.simps split: if_splits sum.splits)
qed

lemma Insert_sortIndex: "Insert t x = Inr t' \<Longrightarrow> sortIndex t' = sortIndex t"
  by (drule Insert_Inr_cases) auto

lemma Insert_mset:
  "Insert t x = Inr t' \<Longrightarrow> mset (records (root t')) = add_mset x (mset (records (root t)))"
  by (drule Insert_Inr_cases) (auto dest: Node_insert_mset)

lemma Insert_count:
  "Insert t x = Inr t' \<Longrightarrow> count_nodes (root t') = Suc (count_nodes (root t))"
  by (drule Insert_Inr_cases) (auto dest: Node_insert_count)

lemma Insert_bst:
  "Insert t x = Inr t' \<Longrightarrow> bst (sortIndex_less (sortIndex t)) (root t) \<Longrightarrow>
   bst (sortIndex_less (sortIndex t)) (root t')"
  by (drule Insert_Inr_cases) (auto dest: Node_insert_bst)

lemma Insert_attach:
  "Insert t x = Inr t' \<Longrightarrow>
   root t' = attach (root t) (descent (sortIndex t) (root t) x) x"
  by (drule Insert_Inr_cases) (auto dest: Node_insert_attach)

lemma Insert_root_val:
  "Insert t x = Inr t' \<Longrightarrow> root t \<noteq> nil \<Longrightarrow> root t' \<noteq> nil \<and> val (root t') = val (root t)"
  by (drule Insert_Inr_cases) (auto dest: Node_insert_val Node_insert_not_nil)

lemma Insert_defined:
  assumes "\<forall>y \<in> set (records (root t)). length y = m" and "length x = m" and "sortIndex t < m"
  shows "\<exists>t'. Insert t x = Inr t'"
proof (cases "root t")
  case nil
  then show ?thesis by (simp add: Insert_def)
next
  case (Node v l r)
  then have "root t \<noteq> nil" by simp
  moreover have "\<forall>y \<in> set (records (root t)). sortIndex t < length y"
    using assms by simp
  ultimately obtain n' where "Node_insert (root t) x (sortIndex_less (sortIndex t)) = Inr n'"
    using Node_insert_defined [of "root t" "sortIndex t" x] assms by auto
  moreover have "length v = m" using assms(1) Node by simp
  ultimately show ?thesis using assms Node by (simp add: Insert_def)
qed

subsection \<open>Building from a stream\<close>

lemma Build_append:
  "BuildTreeFromStream t (xs @ ys) =
     (case BuildTreeFromStream t xs of Inl e \<Rightarrow> Inl e | Inr t' \<Rightarrow> BuildTreeFromStream t' ys)"
  by (induction xs arbitrary: t) (auto split: sum.splits)

lemma Build_sortIndex: "BuildTreeFromStream t rs = Inr t' \<Longrightarrow> sortIndex t' = sortIndex t"
  by (induction rs arbitrary: t) (auto split: sum.splits dest: Insert_sortIndex)

lemma Build_mset:
  "BuildTreeFromStream t rs = Inr t' \<Longrightarrow>
   mset (records (root t')) = mset (records (root t)) + mset rs"
  by (induction rs arbitrary: t) (auto split: sum.splits dest: Insert_mset)

lemma Build_count:
  "BuildTreeFromStream t rs = Inr t' \<Longrightarrow>
   count_nodes (root t') = count_nodes (root t) + length rs"
  by (induction rs arbitrary: t) (auto split: sum.splits dest: Insert_count)

lemma Build_bst:
  "BuildTreeFromStream t rs = Inr t' \<Longrightarrow> bst (sortIndex_less (sortIndex t)) (root t) \<Longrightarrow>
   bst (sortIndex_less (sortIndex t)) (root t')"
proof (induction rs arbitrary: t)
  case Nil
  then show ?case by simp
next
  case (Cons x rs)
  from Cons.prems(1) obtain t1 where t1: "Insert t x = Inr t1" "BuildTreeFromStream t1 rs = Inr t'"
    by (auto split: sum.splits)
  have "bst (sortIndex_less (sortIndex t1)) (root t1)"
    using Insert_bst [OF t1(1) Cons.prems(2)] Insert_sortIndex [OF t1(1)] by simp
  from Cons.IH [OF t1(2) this] Insert_sortIndex [OF t1(1)] show ?case by simp
qed

lemma Build_root_val:
  "BuildTreeFromStream t rs = Inr t' \<Longrightarrow> root t \<noteq> nil \<Longrightarrow>
   root t' \<noteq> nil \<and> val (root t') = val (root t)"
proof (induction rs arbitrary: t)
  case Nil
  then show ?case by simp
next
  case (Cons x rs)
  from Cons.prems(1) obtain t1 where t1: "Insert t x = Inr t1" "BuildTreeFromStream t1 rs = Inr t'"
    by (auto split: sum.splits)
  from Insert_root_val [OF t1(1) Cons.prems(2)] Cons.IH [OF t1(2)] show ?case by simp
qed

lemma Build_defined:
  "\<forall>y \<in> set (records (root t)). length y = m \<Longrightarrow> \<forall>r \<in> set rs. length r = m \<Longrightarrow>
   sortIndex t < m \<Longrightarrow> \<exists>t'. BuildTreeFromStream t rs = Inr t'"
proof (induction rs arbitrary: t)
  case Nil
  then show ?case by simp
next
  case (Cons x rs)
  from Cons.prems obtain t1 where t1: "Insert t x = Inr t1"
    using Insert_defined [of t m x] by auto
  have "set (records (root t1)) = insert x (set (records (root t)))"
    using Insert_mset [OF t1, THEN arg_cong, of set_mset] by simp
  with Cons.prems have "\<forall>y \<in> set (records (root t1)). length y = m" by simp
  moreover have "sortIndex t1 < m" using Insert_sortIndex [OF t1] Cons.prems by simp
  ultimately obtain t' where "BuildTreeFromStream t1 rs = Inr t'"
    using Cons.IH [of t1] Cons.prems(2) by auto
  with t1 show ?case by simp
qed

subsection \<open>Order of the records of a search tree\<close>

lemma sortIndex_less_True:
  "sortIndex_less si x v = Inr True \<Longrightarrow> x ! si < v ! si"
  by (auto simp: sortIndex_less_def str_less_iff split: if_splits)

lemma sortIndex_less_False:
  "sortIndex_less si x v = Inr False \<Longrightarrow> v ! si \<le> x ! si"
  by (auto simp: sortIndex_less_def str_less_iff split: if_splits)

lemma bst_sorted:
  "bst (sortIndex_less si) n \<Longrightarrow> sorted (map (\<lambda>r. r ! si) (records n))"
proof (induction n)
  case nil
  then show ?case by simp
next
  case (Node v l r)
  have l: "\<forall>x \<in> set (records l). x ! si < v ! si"
    using Node.prems by (auto dest: sortIndex_less_True)
  have r: "\<forall>x \<in> set (records r). v ! si \<le> x ! si"
    using Node.prems by (auto dest: sortIndex_less_False)
  have "\<forall>x \<in> set (records l). \<forall>y \<in> set (records r). x ! si \<le> y ! si"
    using l r by (meson less_le_trans less_imp_le)
  with l r Node show ?case
    by (auto simp: sorted_append less_imp_le)
qed

lemma sorted_str_less:
  "sorted ks \<longleftrightarrow> sorted_wrt (\<lambda>a b. \<not> str_less b a) ks"
  by (simp add: str_less_iff not_less)

lemma sorted_rev_str_less:
  "sorted ks \<longleftrightarrow> sorted_wrt (\<lambda>a b. \<not> str_less a b) (rev ks)"
  by (simp add: str_less_iff not_less sorted_wrt_rev)

subsection \<open>Records with equal keys\<close>

text \<open>
  A record goes to the left only of nodes with a greater key, so it ends up behind every
  record of its own key.
\<close>

lemma Node_insert_filter:
  "Node_insert n x (sortIndex_less si) = Inr n' \<Longrightarrow> bst (sortIndex_less si) n \<Longrightarrow>
   filter (\<lambda>y. y ! si = k) (records n') = filter (\<lambda>y. y ! si = k) (records n) @ filter (\<lambda>y. y ! si = k) [x]"
proof (induction n arbitrary: n')
  case nil
  then show ?case by simp
next
  case (Node v l r)
  from Node.prems(1) obtain b where c: "sortIndex_less si x v = Inr b"
    by (cases "sortIndex_less si x v") auto
  show ?case
  proof (cases b)
    case True
    with c have xv: "x ! si < v ! si" by (auto dest: sortIndex_less_True)
    have "\<forall>y \<in> set (records r). v ! si \<le> y ! si"
      using Node.prems(2) by (auto dest: sortIndex_less_False)
    with xv have far: "\<forall>y \<in> set (v # records r). y ! si \<noteq> x ! si" by auto
    have tail: "x ! si = k \<Longrightarrow> filter (\<lambda>y. y ! si = k) (v # records r) = []"
      using far by (auto simp: filter_empty_conv)
    show ?thesis
    proof (cases "l = nil")
      case True
      with c \<open>b\<close> Node.prems(1) have "n' = Node v (Node x nil nil) r" by simp
      with True tail show ?thesis by auto
    next
      case False
      with Node.prems(1) c \<open>b\<close> obtain l' where l': "Node_insert l x (sortIndex_less si) = Inr l'" "n' = Node v l' r"
        by (auto split: sum.splits)
      from Node.IH(1) [OF l'(1)] Node.prems(2)
      have "filter (\<lambda>y. y ! si = k) (records l') = filter (\<lambda>y. y ! si = k) (records l) @ filter (\<lambda>y. y ! si = k) [x]"
        by simp
      with l'(2) tail show ?thesis by auto
    qed
  next
    case False
    show ?thesis
    proof (cases "r = nil")
      case True
      with c \<open>\<not> b\<close> Node.prems(1) have "n' = Node v l (Node x nil nil)" by simp
      with True show ?thesis by simp
    next
      case rn: False
      with Node.prems(1) c False obtain r' where r': "Node_insert r x (sortIndex_less si) = Inr r'" "n' = Node v l r'"
        by (auto split: sum.splits)
      from Node.IH(2) [OF r'(1)] Node.prems(2)
      have "filter (\<lambda>y. y ! si = k) (records r') = filter (\<lambda>y. y ! si = k) (records r) @ filter (\<lambda>y. y ! si = k) [x]"
        by simp
      with r'(2) show ?thesis by simp
    qed
  qed
qed

lemma Insert_filter:
  "Insert t x = Inr t' \<Longrightarrow> bst (sortIndex_less (sortIndex t)) (root t) \<Longrightarrow>
   filter (\<lambda>y. y ! sortIndex t = k) (records (root t')) =
   filter (\<lambda>y. y ! sortIndex t = k) (records (root t)) @ filter (\<lambda>y. y ! sortIndex t = k) [x]"
  by (drule Insert_Inr_cases) (auto dest: Node_insert_filter [where k = k])

lemma Build_filter:
  "BuildTreeFromStream t rs = Inr t' \<Longrightarrow> bst (sortIndex_less (sortIndex t)) (root t) \<Longrightarrow>
   filter (\<lambda>y. y ! sortIndex t = k) (records (root t')) =
   filter (\<lambda>y. y ! sortIndex t = k) (records (root t)) @ filter (\<lambda>y. y ! sortIndex t = k) rs"
proof (induction rs arbitrary: t)
  case Nil
  then show ?case by simp
next
  case (Cons x rs)
  from Cons.prems(1) obtain t1 where t1: "Insert t x = Inr t1" "BuildTreeFromStream t1 rs = Inr t'"
    by (auto split: sum.splits)
  have si: "sortIndex t1 = sortIndex t" by (rule Insert_sortIndex [OF t1(1)])
  have "bst (sortIndex_less (sortIndex t1)) (root t1)"
    using Insert_bst [OF t1(1) Cons.prems(2)] si by simp
  from Cons.IH [OF t1(2) this] Insert_filter [OF t1(1) Cons.prems(2), of k] si
  show ?case by simp
qed

subsection \<open>Splitting lines\<close>









subsection \<open>The reader loop\<close>






section \<open>The claims\<close>

text \<open>
  Claim C1. When records of one arity \<open>m\<close> are inserted one after the other into a new
  tree whose sort index is below \<open>m\<close>, every insertion succeeds, and in the tree that
  results the traversal with \<^verbatim>\<open>reverse = false\<close> visits exactly the inserted records
  (each as often as it was inserted) with the field at the sort index non-decreasing in
  the lexicographic order of strings (no later key is less than an earlier one), and the
  traversal with \<^verbatim>\<open>reverse = true\<close> visits exactly the inserted records with that
  field non-increasing (no earlier key is less than a later one).
\<close>

theorem sorted_traversal:
  assumes "\<forall>r \<in> set rs. length r = m" and "si < m"
  shows "\<exists>t. BuildTreeFromStream (NewTree si) rs = Inr t \<and>
           mset (visited_records t False) = mset rs \<and>
           sorted_wrt (\<lambda>a b. \<not> str_less b a) (map (sort_field si) (visited_records t False)) \<and>
           mset (visited_records t True) = mset rs \<and>
           sorted_wrt (\<lambda>a b. \<not> str_less a b) (map (sort_field si) (visited_records t True))"
proof -
  obtain t where t: "BuildTreeFromStream (NewTree si) rs = Inr t"
    using Build_defined [of "NewTree si" m rs] assms by (auto simp: NewTree_def)
  have m: "mset (records (root t)) = mset rs"
    using Build_mset [OF t] by (simp add: NewTree_def)
  have "bst (sortIndex_less si) (root t)"
    using Build_bst [OF t] by (simp add: NewTree_def)
  then have s: "sorted (map (\<lambda>r. r ! si) (records (root t)))"
    by (rule bst_sorted)
  have k: "sort_field si = (\<lambda>r. r ! si)"
    by (simp add: sort_field_def fun_eq_iff)
  have "sorted_wrt (\<lambda>a b. \<not> str_less b a) (map (sort_field si) (visited_records t False))"
    using s by (simp add: k visited_records_eq sorted_str_less [symmetric])
  moreover have "sorted_wrt (\<lambda>a b. \<not> str_less a b) (rev (map (\<lambda>r. r ! si) (records (root t))))"
    using s sorted_rev_str_less by blast
  then have "sorted_wrt (\<lambda>a b. \<not> str_less a b) (map (sort_field si) (visited_records t True))"
    by (simp add: k visited_records_eq rev_map)
  moreover have "mset (visited_records t False) = mset rs" "mset (visited_records t True) = mset rs"
    using m by (simp_all add: visited_records_eq)
  ultimately show ?thesis using t by blast
qed

theorem sorted_traversal_witness:
  "length [''b'', ''2''] = 2 \<and> length [''a'', ''1''] = 2 \<and> length [''c'', ''3''] = 2 \<and>
   (0::nat) < 2 \<and>
   BuildTreeFromStream (NewTree 0) [[''b'', ''2''], [''a'', ''1''], [''c'', ''3'']] =
     Inr \<lparr>sortIndex = 0,
          root = Node [''b'', ''2''] (Node [''a'', ''1''] nil nil) (Node [''c'', ''3''] nil nil)\<rparr> \<and>
   visited_records
     \<lparr>sortIndex = 0,
      root = Node [''b'', ''2''] (Node [''a'', ''1''] nil nil) (Node [''c'', ''3''] nil nil)\<rparr>
     False = [[''a'', ''1''], [''b'', ''2''], [''c'', ''3'']] \<and>
   visited_records
     \<lparr>sortIndex = 0,
      root = Node [''b'', ''2''] (Node [''a'', ''1''] nil nil) (Node [''c'', ''3''] nil nil)\<rparr>
     True = [[''c'', ''3''], [''b'', ''2''], [''a'', ''1'']] \<and>
   mset [[''a'', ''1''], [''b'', ''2''], [''c'', ''3'']] =
     mset [[''b'', ''2''], [''a'', ''1''], [''c'', ''3'']] \<and>
   sorted_wrt (\<lambda>a b. \<not> str_less b a) (map (sort_field 0) [[''a'', ''1''], [''b'', ''2''], [''c'', ''3'']]) \<and>
   sorted_wrt (\<lambda>a b. \<not> str_less a b) (map (sort_field 0) [[''c'', ''3''], [''b'', ''2''], [''a'', ''1'']])"
proof -
  have h: "\<forall>r \<in> set [[''b'', ''2''], [''a'', ''1''], [''c'', ''3'']]. length r = 2" by simp
  have i: "(0::nat) < 2" by simp
  have b: "BuildTreeFromStream (NewTree 0) [[''b'', ''2''], [''a'', ''1''], [''c'', ''3'']] =
     Inr \<lparr>sortIndex = 0,
          root = Node [''b'', ''2''] (Node [''a'', ''1''] nil nil) (Node [''c'', ''3''] nil nil)\<rparr>"
    by (simp add: NewTree_def Insert_def sortIndex_less_def)
  have v: "visited_records
     \<lparr>sortIndex = 0,
      root = Node [''b'', ''2''] (Node [''a'', ''1''] nil nil) (Node [''c'', ''3''] nil nil)\<rparr>
     False = [[''a'', ''1''], [''b'', ''2''], [''c'', ''3'']]"
    "visited_records
     \<lparr>sortIndex = 0,
      root = Node [''b'', ''2''] (Node [''a'', ''1''] nil nil) (Node [''c'', ''3''] nil nil)\<rparr>
     True = [[''c'', ''3''], [''b'', ''2''], [''a'', ''1'']]"
    by (simp_all add: visited_records_def Traverse_def)
  from sorted_traversal [OF h i] show ?thesis
    unfolding b by (simp add: v)
qed

text \<open>
  Claim C2. Every tree reached from the empty tree by successful insertions satisfies the
  search-tree invariant for the comparator on the sort index: at every node, each record
  of the left subtree compares strictly less than the node's record and each record of
  the right subtree does not. Every further successful insertion yields the tree with the
  record attached as a new leaf at the end of the descent that goes left on strictly
  less and right otherwise, down to the first missing child, and the invariant holds
  again.
\<close>

theorem bst_invariant:
  assumes "BuildTreeFromStream (NewTree si) rs = Inr t"
  shows "bst (sortIndex_less si) (root t) \<and>
         (\<forall>x t'. Insert t x = Inr t' \<longrightarrow>
            root t' = attach (root t) (descent si (root t) x) x \<and>
            bst (sortIndex_less si) (root t'))"
proof -
  have si: "sortIndex t = si"
    using Build_sortIndex [OF assms] by (simp add: NewTree_def)
  have b: "bst (sortIndex_less si) (root t)"
    using Build_bst [OF assms] by (simp add: NewTree_def)
  show ?thesis
    using b Insert_attach [of t] Insert_bst [of t] si by auto
qed

theorem bst_invariant_witness:
  "BuildTreeFromStream (NewTree 0) [[''b'', ''2''], [''a'', ''1''], [''c'', ''3'']] =
     Inr \<lparr>sortIndex = 0,
          root = Node [''b'', ''2''] (Node [''a'', ''1''] nil nil) (Node [''c'', ''3''] nil nil)\<rparr> \<and>
   bst (sortIndex_less 0)
     (Node [''b'', ''2''] (Node [''a'', ''1''] nil nil) (Node [''c'', ''3''] nil nil)) \<and>
   Insert \<lparr>sortIndex = 0,
           root = Node [''b'', ''2''] (Node [''a'', ''1''] nil nil) (Node [''c'', ''3''] nil nil)\<rparr>
     [''bb'', ''9''] =
     Inr \<lparr>sortIndex = 0,
          root = Node [''b'', ''2''] (Node [''a'', ''1''] nil nil)
                   (Node [''c'', ''3''] (Node [''bb'', ''9''] nil nil) nil)\<rparr> \<and>
   attach (Node [''b'', ''2''] (Node [''a'', ''1''] nil nil) (Node [''c'', ''3''] nil nil))
     [GoRight, GoLeft] [''bb'', ''9''] =
     Node [''b'', ''2''] (Node [''a'', ''1''] nil nil)
       (Node [''c'', ''3''] (Node [''bb'', ''9''] nil nil) nil) \<and>
   bst (sortIndex_less 0)
     (Node [''b'', ''2''] (Node [''a'', ''1''] nil nil)
        (Node [''c'', ''3''] (Node [''bb'', ''9''] nil nil) nil))"
proof -
  have h: "BuildTreeFromStream (NewTree 0) [[''b'', ''2''], [''a'', ''1''], [''c'', ''3'']] =
     Inr \<lparr>sortIndex = 0,
          root = Node [''b'', ''2''] (Node [''a'', ''1''] nil nil) (Node [''c'', ''3''] nil nil)\<rparr>"
    by (simp add: NewTree_def Insert_def sortIndex_less_def)
  have i: "Insert \<lparr>sortIndex = 0,
           root = Node [''b'', ''2''] (Node [''a'', ''1''] nil nil) (Node [''c'', ''3''] nil nil)\<rparr>
     [''bb'', ''9''] =
     Inr \<lparr>sortIndex = 0,
          root = Node [''b'', ''2''] (Node [''a'', ''1''] nil nil)
                   (Node [''c'', ''3''] (Node [''bb'', ''9''] nil nil) nil)\<rparr>"
    by (simp add: Insert_def sortIndex_less_def)
  from bst_invariant [OF h] i h show ?thesis by (simp add: sortIndex_less_def)
qed

text \<open>
  Claim C3 says that inserting a record whose arity is at most the sort index is fatal
  for every tree, empty or not. On the empty tree it is not: the record becomes the
  root, here a record of one field with sort index 5.
\<close>

theorem Insert_empty_accepts_short_record:
  "length [''a''] \<le> sortIndex (NewTree 5) \<and>
   Insert (NewTree 5) [''a''] = Inr \<lparr>sortIndex = 5, root = Node [''a''] nil nil\<rparr>"
  by (simp add: NewTree_def Insert_def)

text \<open>
  Claim C3, amended. For every tree that is not empty, inserting a record whose arity
  is at most the sort index is fatal with the diagnostic "index out of range": the
  record is not inserted, and a stream that begins with such a record is not read any
  further.
\<close>

theorem Insert_index_fatal:
  assumes "root t \<noteq> nil" and "length x \<le> sortIndex t"
  shows "Insert t x = Inl IndexOutOfRange \<and>
         BuildTreeFromStream t (x # rest) = Inl IndexOutOfRange"
  using assms by (cases "root t") (simp_all add: Insert_def del: Node_insert.simps)

theorem Insert_index_fatal_witness:
  "root \<lparr>sortIndex = 2, root = Node [''a'', ''1''] nil nil\<rparr> \<noteq> nil \<and>
   length [''b'', ''2''] \<le> sortIndex \<lparr>sortIndex = 2, root = Node [''a'', ''1''] nil nil\<rparr> \<and>
   Insert \<lparr>sortIndex = 2, root = Node [''a'', ''1''] nil nil\<rparr> [''b'', ''2''] = Inl IndexOutOfRange \<and>
   BuildTreeFromStream \<lparr>sortIndex = 2, root = Node [''a'', ''1''] nil nil\<rparr>
     [[''b'', ''2''], [''c'', ''3'']] = Inl IndexOutOfRange"
proof -
  have h: "root \<lparr>sortIndex = 2, root = Node [''a'', ''1''] nil nil\<rparr> \<noteq> nil" by simp
  have i: "length [''b'', ''2''] \<le> sortIndex \<lparr>sortIndex = 2, root = Node [''a'', ''1''] nil nil\<rparr>"
    by simp
  from Insert_index_fatal [OF h i, of "[[''c'', ''3'']]"] h i show ?thesis by blast
qed

text \<open>
  Claim C4. For every tree that is not empty, inserting a record whose number of fields
  differs from that of the root's record is fatal: the insertion ends with "index out of
  range" when the record is too short for the sort index, and with "invalid record
  length" otherwise; in both cases the record is not inserted and the rest of the stream
  is not processed (no skipping of the record). The root's record is the record that was
  inserted first, whatever was inserted after it.
\<close>

theorem arity_mismatch_fatal:
  assumes "root t = Node v l r" and "length x \<noteq> length v"
  shows "Insert t x =
           Inl (if length x \<le> sortIndex t then IndexOutOfRange
                else InvalidRecordLength (length x)) \<and>
         BuildTreeFromStream t (x # post) = Insert t x \<and>
         (\<forall>si first pre. BuildTreeFromStream (NewTree si) (first # pre) = Inr t \<longrightarrow> v = first)"
proof -
  have a: "Insert t x =
           Inl (if length x \<le> sortIndex t then IndexOutOfRange
                else InvalidRecordLength (length x))"
    using assms by (simp add: Insert_def del: Node_insert.simps)
  then have b: "BuildTreeFromStream t (x # post) = Insert t x" by simp
  have "v = first" if "BuildTreeFromStream (NewTree si) (first # pre) = Inr t" for si first pre
  proof -
    have "Insert (NewTree si) first = Inr \<lparr>sortIndex = si, root = Node first nil nil\<rparr>"
      by (simp add: Insert_def NewTree_def)
    with that have "BuildTreeFromStream \<lparr>sortIndex = si, root = Node first nil nil\<rparr> pre = Inr t"
      by simp
    from Build_root_val [OF this] assms(1) show ?thesis by simp
  qed
  with a b show ?thesis by blast
qed

theorem arity_mismatch_fatal_witness:
  "root \<lparr>sortIndex = 0, root = Node [''b'', ''2''] (Node [''a'', ''1''] nil nil) nil\<rparr> =
     Node [''b'', ''2''] (Node [''a'', ''1''] nil nil) nil \<and>
   length [''c'', ''3'', ''x''] \<noteq> length [''b'', ''2''] \<and>
   BuildTreeFromStream (NewTree 0) ([''b'', ''2''] # [[''a'', ''1'']]) =
     Inr \<lparr>sortIndex = 0, root = Node [''b'', ''2''] (Node [''a'', ''1''] nil nil) nil\<rparr> \<and>
   Insert \<lparr>sortIndex = 0, root = Node [''b'', ''2''] (Node [''a'', ''1''] nil nil) nil\<rparr>
     [''c'', ''3'', ''x''] = Inl (InvalidRecordLength 3) \<and>
   BuildTreeFromStream \<lparr>sortIndex = 0, root = Node [''b'', ''2''] (Node [''a'', ''1''] nil nil) nil\<rparr>
     [[''c'', ''3'', ''x''], [''d'', ''4'']] = Inl (InvalidRecordLength 3) \<and>
   [''b'', ''2''] = [''b'', ''2'']"
proof -
  have h: "root \<lparr>sortIndex = 0, root = Node [''b'', ''2''] (Node [''a'', ''1''] nil nil) nil\<rparr> =
     Node [''b'', ''2''] (Node [''a'', ''1''] nil nil) nil" by simp
  have i: "length [''c'', ''3'', ''x''] \<noteq> length [''b'', ''2'']" by simp
  have j: "BuildTreeFromStream (NewTree 0) ([''b'', ''2''] # [[''a'', ''1'']]) =
     Inr \<lparr>sortIndex = 0, root = Node [''b'', ''2''] (Node [''a'', ''1''] nil nil) nil\<rparr>"
    by (simp add: NewTree_def Insert_def sortIndex_less_def)
  from arity_mismatch_fatal [OF h i, of "[[''d'', ''4'']]"] h i j show ?thesis by simp
qed

text \<open>
  Claim C5. After a stream of \<open>n\<close> records has been inserted into a new tree without
  error, the tree has exactly \<open>n\<close> nodes, a traversal visits \<open>n\<close> nodes, and the
  records visited, in either direction, are as a multiset the records of the stream:
  nothing is lost and nothing is duplicated.
\<close>

theorem no_loss_no_duplication:
  assumes "BuildTreeFromStream (NewTree si) rs = Inr t"
  shows "count_nodes (root t) = length rs \<and>
         length (visited t False) = length rs \<and>
         mset (visited_records t False) = mset rs \<and>
         mset (visited_records t True) = mset rs"
proof -
  have m: "mset (records (root t)) = mset rs"
    using Build_mset [OF assms] by (simp add: NewTree_def)
  have c: "count_nodes (root t) = length rs"
    using Build_count [OF assms] by (simp add: NewTree_def)
  have "length (inorder_nodes (root t)) = length (records (root t))"
    using map_val_inorder_nodes [of "root t", THEN arg_cong, of length] by simp
  also have "\<dots> = length rs"
    using m [THEN arg_cong, of size] by simp
  finally have "length (visited t False) = length rs" by (simp add: visited_eq)
  with m c show ?thesis by (simp add: visited_records_eq)
qed

theorem no_loss_no_duplication_witness:
  "BuildTreeFromStream (NewTree 0) [[''b'', ''2''], [''a'', ''1''], [''b'', ''2'']] =
     Inr \<lparr>sortIndex = 0,
          root = Node [''b'', ''2''] (Node [''a'', ''1''] nil nil) (Node [''b'', ''2''] nil nil)\<rparr> \<and>
   count_nodes (Node [''b'', ''2''] (Node [''a'', ''1''] nil nil) (Node [''b'', ''2''] nil nil)) = 3 \<and>
   mset (visited_records
           \<lparr>sortIndex = 0,
            root = Node [''b'', ''2''] (Node [''a'', ''1''] nil nil) (Node [''b'', ''2''] nil nil)\<rparr>
           False) =
     mset [[''b'', ''2''], [''a'', ''1''], [''b'', ''2'']]"
proof -
  have h: "BuildTreeFromStream (NewTree 0) [[''b'', ''2''], [''a'', ''1''], [''b'', ''2'']] =
     Inr \<lparr>sortIndex = 0,
          root = Node [''b'', ''2''] (Node [''a'', ''1''] nil nil) (Node [''b'', ''2''] nil nil)\<rparr>"
    by (simp add: NewTree_def Insert_def sortIndex_less_def)
  from no_loss_no_duplication [OF h] h show ?thesis by simp
qed




text \<open>
  Claim C7 says that a failure to write one record is fatal for the whole serialization.
  It is not: with room for one record only, the write of the second record reports an
  error, and \<^const>\<open>WriteTree\<close> still calls \<open>Write\<close> for the third record, flushes,
  and returns normally, with one of three records written.
\<close>

theorem WriteTree_ignores_write_error:
  "fst (Write probe_Writer [''b'', ''2'']
          \<lparr>calls = [[''a'', ''1'']], written = [[''a'', ''1'']], room = 0, flushes = 0\<rparr>) \<and>
   WriteTree
     \<lparr>sortIndex = 0,
      root = Node [''b'', ''2''] (Node [''a'', ''1''] nil nil) (Node [''c'', ''3''] nil nil)\<rparr>
     probe_Writer False \<lparr>calls = [], written = [], room = 1, flushes = 0\<rparr> =
   Inr \<lparr>calls = [[''a'', ''1''], [''b'', ''2''], [''c'', ''3'']],
        written = [[''a'', ''1'']],
        room = 0,
        flushes = 1\<rparr>"
  by (simp add: WriteTree_def Traverse_def probe_Writer_def)

text \<open>
  Claim C7, amended. \<^const>\<open>WriteTree\<close> calls \<open>Write\<close> once for every visited
  record, in traversal order, whatever the earlier calls reported: the result of
  \<open>Write\<close> is dropped, so a failed write ends neither the traversal nor the process.
  It calls \<open>Flush\<close> once, after the last \<open>Write\<close>, and returns normally.
\<close>

theorem WriteTree_writes_all_then_flushes:
  "WriteTree tree writer reverse w =
     Inr (Flush writer
            (fold (\<lambda>r w'. snd (Write writer r w')) (visited_records tree reverse) w))"
proof -
  have f: "fold (\<lambda>r w'. snd (Write writer r w')) (map val ns) w =
        fold (\<lambda>node w'. snd (Write writer (val node) w')) ns w" for ns
    by (simp add: fold_map comp_def)
  have "visited_records tree reverse =
        map val (if reverse then rev (inorder_nodes (root tree)) else inorder_nodes (root tree))"
    by (simp add: visited_records_eq rev_map map_val_inorder_nodes [symmetric])
  then show ?thesis
    by (simp only: WriteTree_def Traverse_fold f)
qed

text \<open>
  Claim C8. For every tree, the sequence of nodes visited with \<^verbatim>\<open>reverse = true\<close> is
  the reversal of the sequence visited with \<^verbatim>\<open>reverse = false\<close>, and so is the
  sequence of their records.
\<close>

theorem reverse_traversal:
  "visited t True = rev (visited t False) \<and>
   visited_records t True = rev (visited_records t False)"
  by (simp add: visited_eq visited_records_eq)

text \<open>
  Claim C9. Inserting into the empty tree never fails and checks nothing: whatever the
  record and the sort index, also a sort index beyond the record's arity, the record
  becomes the root. An insertion that is fatal is therefore always an insertion into a
  tree that is not empty.
\<close>

theorem Insert_empty_unchecked:
  "Insert \<lparr>sortIndex = si, root = nil\<rparr> r = Inr \<lparr>sortIndex = si, root = Node r nil nil\<rparr> \<and>
   (Insert t x = Inl e \<longrightarrow> root t \<noteq> nil)"
  by (auto simp: Insert_def)

theorem Insert_empty_unchecked_witness:
  "Insert \<lparr>sortIndex = 7, root = nil\<rparr> [''a''] = Inr \<lparr>sortIndex = 7, root = Node [''a''] nil nil\<rparr> \<and>
   Insert \<lparr>sortIndex = 7, root = Node [''a''] nil nil\<rparr> [''b''] = Inl IndexOutOfRange \<and>
   root \<lparr>sortIndex = 7, root = Node [''a''] nil nil\<rparr> \<noteq> nil"
proof -
  have h: "Insert \<lparr>sortIndex = 7, root = Node [''a''] nil nil\<rparr> [''b''] = Inl IndexOutOfRange"
    by (simp add: Insert_def)
  from Insert_empty_unchecked
    [of 7 "[''a'']" "\<lparr>sortIndex = 7, root = Node [''a''] nil nil\<rparr>" "[''b'']" IndexOutOfRange] h
  show ?thesis by blast
qed

text \<open>
  Claim C10. Ties keep their insertion order: after a stream has been inserted without
  error, the records with any given value \<open>k\<close> of the sort field are visited by the
  traversal with \<^verbatim>\<open>reverse = false\<close> in the order in which they were inserted, and
  by the traversal with \<^verbatim>\<open>reverse = true\<close> in the reverse of that order.
\<close>

theorem stable_ties:
  assumes "BuildTreeFromStream (NewTree si) rs = Inr t"
  shows "filter (\<lambda>r. sort_field si r = k) (visited_records t False) =
           filter (\<lambda>r. sort_field si r = k) rs \<and>
         filter (\<lambda>r. sort_field si r = k) (visited_records t True) =
           rev (filter (\<lambda>r. sort_field si r = k) rs)"
proof -
  have "filter (\<lambda>y. y ! si = k) (records (root t)) = filter (\<lambda>y. y ! si = k) rs"
    using Build_filter [OF assms, of k] by (simp add: NewTree_def)
  then show ?thesis
    by (simp add: visited_records_eq sort_field_def rev_filter [symmetric])
qed

theorem stable_ties_witness:
  "BuildTreeFromStream (NewTree 0) [[''b'', ''1''], [''a'', ''2''], [''b'', ''3''], [''a'', ''4'']] =
     Inr \<lparr>sortIndex = 0,
          root = Node [''b'', ''1''] (Node [''a'', ''2''] nil (Node [''a'', ''4''] nil nil))
                   (Node [''b'', ''3''] nil nil)\<rparr> \<and>
   filter (\<lambda>r. sort_field 0 r = ''a'')
     (visited_records
        \<lparr>sortIndex = 0,
         root = Node [''b'', ''1''] (Node [''a'', ''2''] nil (Node [''a'', ''4''] nil nil))
                  (Node [''b'', ''3''] nil nil)\<rparr> False) =
     [[''a'', ''2''], [''a'', ''4'']] \<and>
   filter (\<lambda>r. sort_field 0 r = ''a'')
     (visited_records
        \<lparr>sortIndex = 0,
         root = Node [''b'', ''1''] (Node [''a'', ''2''] nil (Node [''a'', ''4''] nil nil))
                  (Node [''b'', ''3''] nil nil)\<rparr> True) =
     [[''a'', ''4''], [''a'', ''2'']]"
proof -
  have h: "BuildTreeFromStream (NewTree 0)
      [[''b'', ''1''], [''a'', ''2''], [''b'', ''3''], [''a'', ''4'']] =
     Inr \<lparr>sortIndex = 0,
          root = Node [''b'', ''1''] (Node [''a'', ''2''] nil (Node [''a'', ''4''] nil nil))
                   (Node [''b'', ''3''] nil nil)\<rparr>"
    by (simp add: NewTree_def Insert_def sortIndex_less_def)
  from stable_ties [OF h, of "''a''"] h show ?thesis by (simp add: sort_field_def)
qed

end
